theory Spec2Isabelle
  imports Complex_Main
begin

section \<open>Data model of the backend (backend/main.py)\<close>

text \<open>
  Python values that travel inside tool arguments and search records: strings, numbers
  and \<open>None\<close>. A Python \<open>dict\<close> with string keys is an association list in insertion
  order, read with \<open>map_of\<close>.
\<close>

datatype pyval = PStr string | PNum int | PNone

type_synonym pydict = "(string \<times> pyval) list"

text \<open>A tool call as the model issues it: \<open>{"name": ..., "args": ..., "id": ...}\<close>.\<close>

datatype tool_call = ToolCall (tc_name: string) (tc_args: pydict) (tc_id: string)

text \<open>
  What the search tool hands back: a list whose items are normally records (dicts), or
  something that is not a list at all (the tool reports its own failures as a string).
\<close>

datatype tool_item = ItemDict pydict | ItemOther pyval

datatype tool_output = OutList "tool_item list" | OutStr string

text \<open>
  The three message roles. The content of a \<open>ToolMessage\<close> is \<open>str(search_results)\<close> in
  the source; the output is kept here as it is, its rendering as text plays no role.
  The arguments of \<open>ToolMessage\<close> are content, \<open>tool_call_id\<close> and \<open>name\<close>.
\<close>

datatype message =
    HumanMessage string
  | AIMessage string "tool_call list"
  | ToolMessage tool_output string string

text \<open>
  Exceptions (subclasses of Python's \<open>Exception\<close>) as values. \<open>HTTPException c e\<close> is
  \<open>HTTPException(status_code=c, detail=str(e))\<close>; \<open>GraphRecursionError\<close> is what the
  graph runtime raises when a run reaches its recursion limit.
\<close>

datatype error =
    LLMError string
  | ToolError string
  | TypeError string
  | IndexError
  | AttributeError
  | ValueError
  | GraphRecursionError
  | HTTPException nat error

text \<open>A streamed chunk is an \<open>AIMessageChunk\<close> with its content, or some other object.\<close>

datatype chunk = AIMessageChunk string | OtherChunk string

text \<open>
  The events of \<open>graph.astream_events(..., version="v2")\<close> that the source tells apart
  by \<open>event["event"]\<close> (and \<open>event["name"]\<close>), and every other event kind by its name.
\<close>

datatype event =
    OnChatModelStart
  | OnChatModelStream chunk
  | OnChatModelEnd message
  | OnToolStart string pydict
  | OnToolEnd string tool_output
  | OtherEvent string

text \<open>
  The frames written to the response, one constructor for each value of the JSON
  field \<open>type\<close>; a frame is sent as \<open>data: <JSON>\n\n\<close>. The \<open>error\<close> frame
  carries \<open>str(e)\<close> of the exception it reports.
\<close>

datatype frame =
    Checkpoint string
  | Content string
  | SearchStart pyval
  | SearchResults "pyval list"
  | End
  | Error error

text \<open>
  The two external capabilities. The language model, given the history, streams text
  fragments and then either fails or completes with a list of tool calls. The search
  tool, given the arguments of a call, fails or returns its output.
\<close>

type_synonym llm = "message list \<Rightarrow> string list \<times> (error + tool_call list)"

type_synonym search = "pydict \<Rightarrow> error + tool_output"

definition search_tool_name :: string where
  "search_tool_name = ''tavily_search_results_json''"

section \<open>The graph: model node, router, tool node\<close>

text \<open>
  \<open>add_messages\<close>, the reducer of the \<open>messages\<close> channel, appends what a node returns
  (the messages of one run carry fresh identifiers, so nothing is replaced).
\<close>

definition add_messages :: "message list \<Rightarrow> message list \<Rightarrow> message list" where
  "add_messages left right = left @ right"

text \<open>
  The node \<open>model\<close>: \<open>llm_with_tools.ainvoke(state["messages"])\<close>. Under
  \<open>astream_events\<close> the call reports its start, each fragment as it arrives, and its
  end with the assembled message, whose content is the fragments joined. An exception is
  re-raised as an \<open>HTTPException\<close> with status 500.
\<close>

definition model :: "llm \<Rightarrow> message list \<Rightarrow> event list \<times> (error + message list)" where
  "model l messages =
     (case l messages of
        (chunks, Inl e) \<Rightarrow>
          (OnChatModelStart # map (\<lambda>c. OnChatModelStream (AIMessageChunk c)) chunks,
           Inl (HTTPException 500 e))
      | (chunks, Inr tcs) \<Rightarrow>
          (let result = AIMessage (concat chunks) tcs
           in (OnChatModelStart # map (\<lambda>c. OnChatModelStream (AIMessageChunk c)) chunks
                 @ [OnChatModelEnd result],
               Inr [result])))"

datatype route = ToolNode | END

text \<open>
  \<open>tools_router\<close>: \<open>state["messages"][-1]\<close> raises on an empty list; a message without
  the attribute \<open>tool_calls\<close>, or with an empty list of calls, routes to \<open>END\<close>.
\<close>

definition tools_router :: "message list \<Rightarrow> error + route" where
  "tools_router messages =
     (if messages = [] then Inl IndexError
      else (case last messages of
              AIMessage c tcs \<Rightarrow> if length tcs > 0 then Inr ToolNode else Inr END
            | _ \<Rightarrow> Inr END))"

text \<open>
  The loop of \<open>tool_node\<close> over the calls of the last message. A call named after the
  search tool invokes it (reported by \<open>on_tool_start\<close> and, when it returns,
  \<open>on_tool_end\<close>) and appends a \<open>ToolMessage\<close>; a call of any other name does nothing.
  An exception leaves the loop at once.
\<close>

fun invoke_calls :: "search \<Rightarrow> tool_call list \<Rightarrow> event list \<times> (error + message list)" where
  "invoke_calls s [] = ([], Inr [])"
| "invoke_calls s (c # cs) =
     (if tc_name c = search_tool_name then
        (case s (tc_args c) of
           Inl e \<Rightarrow> ([OnToolStart (tc_name c) (tc_args c)], Inl e)
         | Inr out \<Rightarrow>
             (case invoke_calls s cs of
                (evs, Inl e) \<Rightarrow>
                  (OnToolStart (tc_name c) (tc_args c) # OnToolEnd (tc_name c) out # evs, Inl e)
              | (evs, Inr tms) \<Rightarrow>
                  (OnToolStart (tc_name c) (tc_args c) # OnToolEnd (tc_name c) out # evs,
                   Inr (ToolMessage out (tc_id c) (tc_name c) # tms))))
      else invoke_calls s cs)"

text \<open>
  \<open>tool_node\<close>: reads \<open>state["messages"][-1].tool_calls\<close> (an empty history or a last
  message without that attribute raises), runs the loop, and re-raises any exception as
  an \<open>HTTPException\<close> with status 500.
\<close>

definition tool_node :: "search \<Rightarrow> message list \<Rightarrow> event list \<times> (error + message list)" where
  "tool_node s messages =
     (if messages = [] then ([], Inl (HTTPException 500 IndexError))
      else (case last messages of
              AIMessage c tcs \<Rightarrow>
                (case invoke_calls s tcs of
                   (evs, Inl e) \<Rightarrow> (evs, Inl (HTTPException 500 e))
                 | (evs, Inr tms) \<Rightarrow> (evs, Inr tms))
            | _ \<Rightarrow> ([], Inl (HTTPException 500 AttributeError))))"

text \<open>
  How a run of the graph ends: it reached \<open>END\<close>, or it was aborted by an exception.
  Each carries the history as of the last completed node.
\<close>

datatype outcome = Done "message list" | Aborted error "message list"

text \<open>
  The recursion limit of a run: the number of node executions (steps) the graph runtime
  allows. The configuration built in \<open>generate_chat_responses\<close> holds the \<open>thread_id\<close>
  only and \<open>graph_builder.compile\<close> is given the checkpointer only, so every run of
  the program has the runtime's default limit.
\<close>

definition recursion_limit :: nat where
  "recursion_limit = 25"

text \<open>
  The compiled graph: entry point \<open>model\<close>, the conditional edge \<open>tools_router\<close> after
  \<open>model\<close>, the edge from \<open>tool_node\<close> back to \<open>model\<close>. The first argument is the
  number of steps the recursion limit still allows. The runtime checks the limit after
  each step, before it looks at what the step leaves to do: when the limit is reached the
  run is aborted with \<open>GraphRecursionError\<close>, also when the last step allowed was a
  response of the model without tool calls. The result is the events reported and
  how the run ends. Events of the kinds that the response loop passes over without a
  frame (those of the chains around the nodes) are left out.
\<close>

fun run_graph :: "nat \<Rightarrow> llm \<Rightarrow> search \<Rightarrow> message list \<Rightarrow> event list \<times> outcome" where
  "run_graph 0 l s messages = ([], Aborted GraphRecursionError messages)"
| "run_graph (Suc k) l s messages =
     (case model l messages of
        (ev1, Inl e) \<Rightarrow> (ev1, Aborted e messages)
      | (ev1, Inr new) \<Rightarrow>
          (let messages1 = add_messages messages new in
           case tools_router messages1 of
             Inl e \<Rightarrow> (ev1, Aborted e messages1)
           | Inr next_node \<Rightarrow>
               if k = 0 then (ev1, Aborted GraphRecursionError messages1)
               else
                 (case next_node of
                    END \<Rightarrow> (ev1, Done messages1)
                  | ToolNode \<Rightarrow>
                      (case tool_node s messages1 of
                         (ev2, Inl e) \<Rightarrow> (ev1 @ ev2, Aborted e messages1)
                       | (ev2, Inr tms) \<Rightarrow>
                           (case run_graph (k - 1) l s (add_messages messages1 tms) of
                              (ev3, out) \<Rightarrow> (ev1 @ ev2 @ ev3, out))))))"

fun history :: "outcome \<Rightarrow> message list" where
  "history (Done h) = h"
| "history (Aborted e h) = h"

section \<open>The streamed response\<close>

text \<open>\<open>serialise_ai_message_chunk\<close>: the content of an \<open>AIMessageChunk\<close>, else a \<open>TypeError\<close>.\<close>

definition serialise_ai_message_chunk :: "chunk \<Rightarrow> error + string" where
  "serialise_ai_message_chunk ch =
     (case ch of
        AIMessageChunk c \<Rightarrow> Inr c
      | OtherChunk nm \<Rightarrow> Inl (TypeError (''Unsupported type: '' @ nm)))"

text \<open>\<open>getattr(output, "tool_calls", [])\<close>.\<close>

fun tool_calls_of :: "message \<Rightarrow> tool_call list" where
  "tool_calls_of (AIMessage c tcs) = tcs"
| "tool_calls_of (HumanMessage c) = []"
| "tool_calls_of (ToolMessage out i nm) = []"

text \<open>\<open>call["args"].get("query", "")\<close>.\<close>

definition query_of :: "tool_call \<Rightarrow> pyval" where
  "query_of call = (case map_of (tc_args call) ''query'' of Some q \<Rightarrow> q | None \<Rightarrow> PStr [])"

text \<open>\<open>[item["url"] for item in output if isinstance(item, dict) and "url" in item]\<close>.\<close>

fun urls_of :: "tool_item list \<Rightarrow> pyval list" where
  "urls_of [] = []"
| "urls_of (ItemDict d # items) =
     (case map_of d ''url'' of Some u \<Rightarrow> u # urls_of items | None \<Rightarrow> urls_of items)"
| "urls_of (ItemOther v # items) = urls_of items"

text \<open>
  The body of the loop \<open>async for event in events\<close>: the frames one event gives rise to,
  or the exception raised while handling it.
\<close>

fun on_event :: "event \<Rightarrow> error + frame list" where
  "on_event (OnChatModelStream ch) =
     (case serialise_ai_message_chunk ch of
        Inl e \<Rightarrow> Inl e
      | Inr chunk_content \<Rightarrow> Inr [Content chunk_content])"
| "on_event (OnChatModelEnd output) =
     Inr (map (\<lambda>call. SearchStart (query_of call))
            (filter (\<lambda>call. tc_name call = search_tool_name) (tool_calls_of output)))"
| "on_event (OnToolEnd nm output) =
     (if nm = search_tool_name then
        (case output of
           OutList items \<Rightarrow> Inr [SearchResults (urls_of items)]
         | OutStr x \<Rightarrow> Inr [])
      else Inr [])"
| "on_event OnChatModelStart = Inr []"
| "on_event (OnToolStart nm a) = Inr []"
| "on_event (OtherEvent nm) = Inr []"

text \<open>
  How the iteration over \<open>events\<close> comes to a stop: the iterator is exhausted, it raises
  an exception, or (an iterator that delivers events without end) it has not stopped.
\<close>

datatype stream_end = Exhausted | Raised error | Pending

text \<open>
  The loop with what follows it: the frames of each event in turn, then \<open>end\<close> when the
  iterator is exhausted. Any exception, of the iterator or of the handling of an
  event, reaches the handler \<open>except Exception\<close>, which sends one \<open>error\<close> frame and
  returns.
\<close>

fun stream_events :: "event list \<Rightarrow> stream_end \<Rightarrow> frame list" where
  "stream_events [] Exhausted = [End]"
| "stream_events [] (Raised e) = [Error e]"
| "stream_events [] Pending = []"
| "stream_events (ev # evs) t =
     (case on_event ev of
        Inl e \<Rightarrow> [Error e]
      | Inr frames \<Rightarrow> frames @ stream_events evs t)"

section \<open>The Conversation Store and the endpoint\<close>

type_synonym store = "string \<Rightarrow> message list option"

text \<open>
  Modelled from the spec: the Conversation Store is the checkpointer
  \<open>memory = MemorySaver()\<close>, whose code is not among the sources. After the spec it is
  a mapping from conversation identifier to ordered message history, and an
  identifier it does not hold starts a fresh empty history.
\<close>

definition load_history :: "store \<Rightarrow> string \<Rightarrow> message list" where
  "load_history st thread_id = (case st thread_id of None \<Rightarrow> [] | Some h \<Rightarrow> h)"

fun end_of :: "outcome \<Rightarrow> stream_end" where
  "end_of (Done h) = Exhausted"
| "end_of (Aborted e h) = Raised e"

text \<open>
  What \<open>generate_chat_responses\<close> uses of the global \<open>graph\<close>: given the store, the
  \<open>thread_id\<close> of the configuration and the input messages,
  \<open>graph.astream_events(...)\<close> delivers events, comes to a stop (or not), and leaves
  the store behind.
\<close>

type_synonym graph = "store \<Rightarrow> string \<Rightarrow> message list \<Rightarrow> (event list \<times> stream_end) \<times> store"

text \<open>
  The graph compiled in the source, with \<open>checkpointer=memory\<close>, run under a recursion
  limit: the input is added to the history held under the thread, the graph runs on it,
  and the history it arrives at is held under the thread afterwards. The program's graph
  is \<open>compiled_graph recursion_limit\<close>.
\<close>

definition compiled_graph :: "nat \<Rightarrow> llm \<Rightarrow> search \<Rightarrow> graph" where
  "compiled_graph n l s st thread_id input =
     (case run_graph n l s (add_messages (load_history st thread_id) input) of
        (evs, out) \<Rightarrow> ((evs, end_of out), st(thread_id \<mapsto> history out)))"

text \<open>
  \<open>generate_chat_responses(message, checkpoint_id)\<close>. The argument \<open>new_checkpoint_id\<close>
  is the value of \<open>str(uuid4())\<close>. The result is the frames in the order they are
  yielded, and the store afterwards.
\<close>

definition generate_chat_responses ::
  "graph \<Rightarrow> store \<Rightarrow> string \<Rightarrow> string \<Rightarrow> string option \<Rightarrow> frame list \<times> store" where
  "generate_chat_responses g st new_checkpoint_id message checkpoint_id =
     (case checkpoint_id of
        None \<Rightarrow>
          (case g st new_checkpoint_id [HumanMessage message] of
             ((events, t), st') \<Rightarrow> (Checkpoint new_checkpoint_id # stream_events events t, st'))
      | Some cid \<Rightarrow>
          (case g st cid [HumanMessage message] of
             ((events, t), st') \<Rightarrow> (stream_events events t, st')))"

text \<open>
  The events and the stop of the iterator that one invocation iterates over: those of
  the thread named by the new identifier, or by the one supplied.
\<close>

definition source_of ::
  "graph \<Rightarrow> store \<Rightarrow> string \<Rightarrow> string \<Rightarrow> string option \<Rightarrow> event list \<times> stream_end" where
  "source_of g st new_checkpoint_id message checkpoint_id =
     fst (g st (case checkpoint_id of None \<Rightarrow> new_checkpoint_id | Some cid \<Rightarrow> cid)
            [HumanMessage message])"

text \<open>Frame kinds.\<close>

fun is_checkpoint :: "frame \<Rightarrow> bool" where
  "is_checkpoint (Checkpoint c) = True"
| "is_checkpoint f = False"

fun is_terminal :: "frame \<Rightarrow> bool" where
  "is_terminal End = True"
| "is_terminal (Error e) = True"
| "is_terminal f = False"

text \<open>Whether the handling of an event raises nothing.\<close>

definition handled :: "event \<Rightarrow> bool" where
  "handled ev = (case on_event ev of Inl e \<Rightarrow> False | Inr frames \<Rightarrow> True)"

section \<open>The frontend's session file (frontend/app.py)\<close>

text \<open>
  \<open>sorted(items, key=f, reverse=True)\<close>: a stable sort in descending order, which
  Python carries out as reverse, stable ascending sort, reverse.
\<close>

definition sorted_reverse :: "('a \<Rightarrow> 'o::linorder) \<Rightarrow> 'a list \<Rightarrow> 'a list" where
  "sorted_reverse f xs = rev (sort_key f (rev xs))"

text \<open>The slice \<open>xs[:m]\<close>; a negative \<open>m\<close> counts from the end.\<close>

definition slice_to :: "int \<Rightarrow> 'a list \<Rightarrow> 'a list" where
  "slice_to m xs = (if 0 \<le> m then take (nat m) xs else take (length xs - nat (- m)) xs)"

text \<open>
  \<open>save_chat_sessions(sessions, max_sessions=20)\<close>. The dict \<open>sessions\<close> is its items in
  insertion order. The first argument stands for \<open>float\<close> on the keys: the number a key
  denotes, or nothing when \<open>float\<close> raises \<open>ValueError\<close>. The result is the value
  stored under \<open>db["sessions"]\<close>, or the exception.
\<close>

definition save_chat_sessions ::
  "(string \<Rightarrow> 'o::linorder option) \<Rightarrow> (string \<times> 'v) list \<Rightarrow> int
     \<Rightarrow> error + (string \<times> 'v) list" where
  "save_chat_sessions float sessions max_sessions =
     (if int (length sessions) > max_sessions then
        (if list_ex (\<lambda>x. float (fst x) = None) sessions then Inl ValueError
         else Inr (slice_to max_sessions
                     (sorted_reverse (\<lambda>x. the (float (fst x))) sessions)))
      else Inr sessions)"

section \<open>Reading a stream and a history\<close>

text \<open>The conversation an invocation works on.\<close>

definition thread_of :: "string \<Rightarrow> string option \<Rightarrow> string" where
  "thread_of new_checkpoint_id checkpoint_id =
     (case checkpoint_id of None \<Rightarrow> new_checkpoint_id | Some cid \<Rightarrow> cid)"

text \<open>
  The messages a turn has added behind the caller's message, read off the store before
  and after.
\<close>

definition turn_messages :: "store \<Rightarrow> store \<Rightarrow> string \<Rightarrow> message list" where
  "turn_messages st st' thread_id =
     drop (Suc (length (load_history st thread_id))) (load_history st' thread_id)"

text \<open>The \<open>content\<close> fields of the \<open>content\<close> frames, in order.\<close>

fun contents_of :: "frame list \<Rightarrow> string list" where
  "contents_of [] = []"
| "contents_of (Content c # fs) = c # contents_of fs"
| "contents_of (f # fs) = contents_of fs"

text \<open>The queries of the \<open>search_start\<close> frames and the lists of the \<open>search_results\<close> frames.\<close>

fun starts_of :: "frame list \<Rightarrow> pyval list" where
  "starts_of [] = []"
| "starts_of (SearchStart q # fs) = q # starts_of fs"
| "starts_of (f # fs) = starts_of fs"

fun results_of :: "frame list \<Rightarrow> pyval list list" where
  "results_of [] = []"
| "results_of (SearchResults us # fs) = us # results_of fs"
| "results_of (f # fs) = results_of fs"

text \<open>
  Pairing each \<open>search_start\<close> with a later \<open>search_results\<close>, first come first served:
  the number of \<open>search_start\<close> frames still without their \<open>search_results\<close> at the end of
  the stream, given the number at its beginning; nothing when a \<open>search_results\<close> frame
  arrives while no \<open>search_start\<close> waits for one.
\<close>

fun unanswered :: "nat \<Rightarrow> frame list \<Rightarrow> nat option" where
  "unanswered k [] = Some k"
| "unanswered k (SearchStart q # fs) = unanswered (Suc k) fs"
| "unanswered k (SearchResults us # fs) = (if k = 0 then None else unanswered (k - 1) fs)"
| "unanswered k (f # fs) = unanswered k fs"

text \<open>The texts of the assistant messages of a history, and the text of its last message.\<close>

fun assistant_texts :: "message list \<Rightarrow> string list" where
  "assistant_texts [] = []"
| "assistant_texts (AIMessage c tcs # ms) = c # assistant_texts ms"
| "assistant_texts (m # ms) = assistant_texts ms"

definition final_answer :: "message list \<Rightarrow> string" where
  "final_answer h =
     (if h = [] then []
      else (case last h of AIMessage c tcs \<Rightarrow> c | _ \<Rightarrow> []))"

text \<open>
  The calls of the search tool that the assistant messages of a history issue, in
  order, and the tool results of a history: the \<open>tool_call_id\<close> and the output of each
  \<open>ToolMessage\<close>, in order.
\<close>

definition search_calls :: "tool_call list \<Rightarrow> tool_call list" where
  "search_calls tcs = filter (\<lambda>call. tc_name call = search_tool_name) tcs"

fun search_calls_of :: "message list \<Rightarrow> tool_call list" where
  "search_calls_of [] = []"
| "search_calls_of (m # ms) = search_calls (tool_calls_of m) @ search_calls_of ms"

fun tool_results_of :: "message list \<Rightarrow> (string \<times> tool_output) list" where
  "tool_results_of [] = []"
| "tool_results_of (ToolMessage out i nm # ms) = (i, out) # tool_results_of ms"
| "tool_results_of (m # ms) = tool_results_of ms"

text \<open>What a \<open>search_results\<close> frame carries for an output that is a list.\<close>

fun urls_of_output :: "tool_output \<Rightarrow> pyval list" where
  "urls_of_output (OutList items) = urls_of items"
| "urls_of_output (OutStr x) = []"

fun is_list :: "tool_output \<Rightarrow> bool" where
  "is_list (OutList items) = True"
| "is_list (OutStr x) = False"

text \<open>The field \<open>url\<close> of an item of the search output, when the item is a record with one.\<close>

fun url_of :: "tool_item \<Rightarrow> pyval option" where
  "url_of (ItemDict d) = map_of d ''url''"
| "url_of (ItemOther v) = None"

text \<open>
  Every tool result of a history references a call issued before it: the first argument
  lists the identifiers of the calls issued so far.
\<close>

fun tool_refs_ok :: "string list \<Rightarrow> message list \<Rightarrow> bool" where
  "tool_refs_ok issued [] = True"
| "tool_refs_ok issued (HumanMessage c # ms) = tool_refs_ok issued ms"
| "tool_refs_ok issued (AIMessage c tcs # ms) = tool_refs_ok (issued @ map tc_id tcs) ms"
| "tool_refs_ok issued (ToolMessage out i nm # ms) = (i \<in> set issued \<and> tool_refs_ok issued ms)"

text \<open>
  The tool results that follow an assistant message answer its search calls in the order
  of issue: the first argument lists the identifiers still to be answered, in order.
\<close>

fun answered_in_order :: "string list \<Rightarrow> message list \<Rightarrow> bool" where
  "answered_in_order expected [] = True"
| "answered_in_order expected (HumanMessage c # ms) = answered_in_order [] ms"
| "answered_in_order expected (AIMessage c tcs # ms) =
     answered_in_order (map tc_id (search_calls tcs)) ms"
| "answered_in_order expected (ToolMessage out i nm # ms) =
     (case expected of
        [] \<Rightarrow> False
      | e # es \<Rightarrow> i = e \<and> answered_in_order es ms)"

text \<open>The identifiers still to be answered at the end of a history.\<close>

fun still_expected :: "string list \<Rightarrow> message list \<Rightarrow> string list" where
  "still_expected expected [] = expected"
| "still_expected expected (HumanMessage c # ms) = still_expected [] ms"
| "still_expected expected (AIMessage c tcs # ms) =
     still_expected (map tc_id (search_calls tcs)) ms"
| "still_expected expected (ToolMessage out i nm # ms) = still_expected (tl expected) ms"

text \<open>The events of one execution of \<open>model\<close> up to the last fragment.\<close>

definition model_events :: "string list \<Rightarrow> event list" where
  "model_events chunks =
     OnChatModelStart # map (\<lambda>c. OnChatModelStream (AIMessageChunk c)) chunks"

fun is_model_end :: "event \<Rightarrow> bool" where
  "is_model_end (OnChatModelEnd m) = True"
| "is_model_end ev = False"

section \<open>Concrete collaborators\<close>

text \<open>
  A language model that first streams some text and asks for one search, and answers
  once the history holds the result; and a search tool that returns two records.
\<close>

definition llm_search_then_answer :: llm where
  "llm_search_then_answer h =
     (if length h \<le> 1
      then ([''Let me '', ''check. ''],
            Inr [ToolCall ''tavily_search_results_json''
                   [(''query'', PStr ''capital of France'')] ''call_1''])
      else ([''Par'', ''is''], Inr []))"

definition search_two_records :: search where
  "search_two_records a =
     Inr (OutList
            [ItemDict [(''title'', PStr ''France''), (''url'', PStr ''http://a''),
                       (''content'', PStr ''c'')],
             ItemDict [(''url'', PStr ''http://b'')]])"

text \<open>
  A search tool that reports a failure of its own as text, and a language model that
  asks for a search in every response.
\<close>

definition search_error_text :: search where
  "search_error_text a = Inr (OutStr ''HTTPError(401)'')"



text \<open>
  \<open>float\<close> on three session keys of the frontend, each the text of a timestamp.
\<close>

definition float_of_key :: "string \<Rightarrow> real option" where
  "float_of_key = map_of [(''1730000001.5'', 1730000001.5), (''1730000003.25'', 1730000003.25),
                          (''1730000002.0'', 1730000002)]"

section \<open>Properties of the streamed response\<close>

lemma on_event_no_checkpoint: "on_event ev = Inr fs \<Longrightarrow> filter is_checkpoint fs = []"
  by (cases ev) (auto simp: filter_empty_conv split: sum.splits tool_output.splits if_splits)

lemma stream_events_no_checkpoint: "filter is_checkpoint (stream_events evs t) = []"
proof (induction evs)
  case Nil
  then show ?case by (cases t) simp_all
next
  case (Cons ev evs)
  then show ?case by (auto split: sum.splits dest: on_event_no_checkpoint)
qed

text \<open>
  C1. The first frame of the stream is the \<open>checkpoint\<close> frame with the new identifier
  exactly when no identifier was supplied. The \<open>checkpoint\<close> frames of the whole stream
  are that one frame when none was supplied and none at all otherwise, and no
  \<open>checkpoint\<close> frame comes after the first frame. This holds whatever the graph
  delivers, also for a stream that has not come to its end.
\<close>

theorem checkpoint_first_iff_new:
  "(take 1 (fst (generate_chat_responses g st new_id message checkpoint_id))
      = [Checkpoint new_id]) = (checkpoint_id = None)
   \<and> filter is_checkpoint (fst (generate_chat_responses g st new_id message checkpoint_id))
       = (case checkpoint_id of None \<Rightarrow> [Checkpoint new_id] | Some cid \<Rightarrow> [])
   \<and> filter is_checkpoint
         (tl (fst (generate_chat_responses g st new_id message checkpoint_id))) = []"
proof (cases checkpoint_id)
  case None
  then show ?thesis
    by (simp add: generate_chat_responses_def stream_events_no_checkpoint split: prod.splits)
next
  case (Some cid)
  obtain evs t st' where g: "g st cid [HumanMessage message] = ((evs, t), st')"
    by (metis prod.exhaust)
  have nc: "filter is_checkpoint (stream_events evs t) = []"
    by (rule stream_events_no_checkpoint)
  have first: "take 1 (stream_events evs t) \<noteq> [Checkpoint new_id]"
  proof
    assume "take 1 (stream_events evs t) = [Checkpoint new_id]"
    then obtain r where "stream_events evs t = Checkpoint new_id # r"
      by (cases "stream_events evs t") auto
    with nc show False by simp
  qed
  have rest: "filter is_checkpoint (tl (stream_events evs t)) = []"
    using nc by (cases "stream_events evs t") (auto split: if_splits)
  show ?thesis using Some g nc first rest by (simp add: generate_chat_responses_def)
qed

theorem checkpoint_first_iff_new_witness:
  "take 1 (fst (generate_chat_responses
                  (compiled_graph recursion_limit llm_search_then_answer search_two_records)
                  Map.empty ''c-1'' ''hi'' None)) = [Checkpoint ''c-1'']
   \<and> filter is_checkpoint
         (fst (generate_chat_responses
                 (compiled_graph recursion_limit llm_search_then_answer search_two_records)
                 Map.empty ''c-1'' ''hi'' (Some ''c-0''))) = []"
  using checkpoint_first_iff_new
          [of "compiled_graph recursion_limit llm_search_then_answer search_two_records"
              Map.empty "''c-1''" "''hi''" None]
        checkpoint_first_iff_new
          [of "compiled_graph recursion_limit llm_search_then_answer search_two_records"
              Map.empty "''c-1''" "''hi''" "Some ''c-0''"]
  by simp

lemma on_event_no_terminal: "on_event ev = Inr fs \<Longrightarrow> filter is_terminal fs = []"
  by (cases ev) (auto simp: filter_empty_conv split: sum.splits tool_output.splits if_splits)

lemma stream_events_terminal:
  "t \<noteq> Pending \<Longrightarrow>
   \<exists>body final. stream_events evs t = body @ [final] \<and> filter is_terminal body = []
      \<and> is_terminal final
      \<and> ((final = End) = (t = Exhausted \<and> list_all handled evs))
      \<and> ((\<exists>e. final = Error e) = (t \<noteq> Exhausted \<or> \<not> list_all handled evs))"
proof (induction evs)
  case Nil
  then show ?case by (cases t) simp_all
next
  case (Cons ev evs)
  show ?case
  proof (cases "on_event ev")
    case (Inl e)
    then show ?thesis by (simp add: handled_def)
  next
    case (Inr fs)
    from Cons obtain body final where b:
      "stream_events evs t = body @ [final]" "filter is_terminal body = []"
      "is_terminal final" "(final = End) = (t = Exhausted \<and> list_all handled evs)"
      "(\<exists>e. final = Error e) = (t \<noteq> Exhausted \<or> \<not> list_all handled evs)"
      by blast
    have "stream_events (ev # evs) t = (fs @ body) @ [final]"
      using Inr b by simp
    moreover have "filter is_terminal (fs @ body) = []"
      using on_event_no_terminal[OF Inr] b by simp
    moreover have "handled ev"
      using Inr by (simp add: handled_def)
    ultimately show ?thesis
      using b by (intro exI[of _ "fs @ body"] exI[of _ final]) simp
  qed
qed

text \<open>
  C2. Whenever the iteration over the events comes to a stop (the iterator is exhausted
  or an exception is raised), the stream is some frames none of which is terminal,
  followed by exactly one terminal frame. That frame is \<open>end\<close> exactly when the iterator
  was exhausted and no event raised while it was handled, and an \<open>error\<close> frame exactly
  when an exception was raised; so the stream never holds both, never neither, and
  nothing follows the terminal frame.
\<close>

theorem one_terminal_frame:
  assumes "snd (source_of g st new_id message checkpoint_id) \<noteq> Pending"
  shows "\<exists>body final.
           fst (generate_chat_responses g st new_id message checkpoint_id) = body @ [final]
         \<and> filter is_terminal body = []
         \<and> is_terminal final
         \<and> ((final = End)
              = (snd (source_of g st new_id message checkpoint_id) = Exhausted
                 \<and> list_all handled (fst (source_of g st new_id message checkpoint_id))))
         \<and> ((\<exists>e. final = Error e)
              = (snd (source_of g st new_id message checkpoint_id) \<noteq> Exhausted
                 \<or> \<not> list_all handled (fst (source_of g st new_id message checkpoint_id))))"
proof -
  obtain events t where src: "source_of g st new_id message checkpoint_id = (events, t)"
    by (metis prod.exhaust)
  with assms have "t \<noteq> Pending" by simp
  from stream_events_terminal[OF this, of events]
  obtain body final where b:
    "stream_events events t = body @ [final]" "filter is_terminal body = []"
    "is_terminal final" "(final = End) = (t = Exhausted \<and> list_all handled events)"
    "(\<exists>e. final = Error e) = (t \<noteq> Exhausted \<or> \<not> list_all handled events)"
    by blast
  show ?thesis
  proof (cases checkpoint_id)
    case None
    then have "fst (generate_chat_responses g st new_id message checkpoint_id)
                 = (Checkpoint new_id # body) @ [final]"
      using src b by (auto simp: generate_chat_responses_def source_of_def split: prod.splits)
    then show ?thesis
      using b src by (intro exI[of _ "Checkpoint new_id # body"] exI[of _ final]) simp
  next
    case (Some cid)
    then have "fst (generate_chat_responses g st new_id message checkpoint_id) = body @ [final]"
      using src b by (auto simp: generate_chat_responses_def source_of_def split: prod.splits)
    then show ?thesis
      using b src by (intro exI[of _ body] exI[of _ final]) simp
  qed
qed

theorem one_terminal_frame_witness:
  "snd (source_of (compiled_graph recursion_limit llm_search_then_answer search_two_records)
          Map.empty ''c-1'' ''hi'' None) \<noteq> Pending
   \<and> (\<exists>body final.
         fst (generate_chat_responses
                (compiled_graph recursion_limit llm_search_then_answer search_two_records)
                Map.empty ''c-1'' ''hi'' None) = body @ [final]
       \<and> filter is_terminal body = [] \<and> is_terminal final)"
proof -
  have h: "snd (source_of (compiled_graph recursion_limit llm_search_then_answer search_two_records)
                  Map.empty ''c-1'' ''hi'' None) \<noteq> Pending"
    by code_simp
  from one_terminal_frame[OF h] show ?thesis
    using h by blast
qed

section \<open>The run of the graph, node by node\<close>

lemma handled_append:
  "list_all handled evs \<Longrightarrow> stream_events (evs @ evs') t = stream_events evs Pending @ stream_events evs' t"
  by (induction evs) (auto simp: handled_def split: sum.splits)

lemma model_events_handled: "list_all handled (model_events chunks)"
  by (induction chunks) (auto simp: model_events_def handled_def serialise_ai_message_chunk_def list_all_iff)

lemma model_events_frames: "stream_events (model_events chunks) Pending = map Content chunks"
  by (induction chunks) (auto simp: model_events_def serialise_ai_message_chunk_def)

lemma invoke_calls_handled: "list_all handled (fst (invoke_calls s tcs))"
  by (induction tcs) (auto simp: handled_def split: sum.splits prod.splits tool_output.splits)

lemma invoke_calls_search_calls: "invoke_calls s tcs = invoke_calls s (search_calls tcs)"
  by (induction tcs) (auto simp: search_calls_def split: sum.splits prod.splits)

lemma invoke_calls_ok:
  "invoke_calls s tcs = (evs, Inr tms) \<Longrightarrow>
     map fst (tool_results_of tms) = map tc_id (search_calls tcs)
   \<and> length (tool_results_of tms) = length tms
   \<and> assistant_texts tms = [] \<and> search_calls_of tms = []
   \<and> results_of (stream_events evs Pending)
        = map urls_of_output (filter is_list (map snd (tool_results_of tms)))
   \<and> starts_of (stream_events evs Pending) = []
   \<and> contents_of (stream_events evs Pending) = []"
proof (induction tcs arbitrary: evs tms)
  case Nil
  then show ?case by (simp add: search_calls_def)
next
  case (Cons c cs)
  show ?case
  proof (cases "tc_name c = search_tool_name")
    case False
    with Cons show ?thesis by (simp add: search_calls_def)
  next
    case True
    from Cons.prems True obtain out evs' tms' where
      o: "s (tc_args c) = Inr out" "invoke_calls s cs = (evs', Inr tms')"
         "evs = OnToolStart (tc_name c) (tc_args c) # OnToolEnd (tc_name c) out # evs'"
         "tms = ToolMessage out (tc_id c) (tc_name c) # tms'"
      by (auto split: sum.splits prod.splits)
    from Cons.IH[OF o(2)] show ?thesis using o True
      by (cases out) (auto simp: search_calls_def)
  qed
qed

lemma model_Inl:
  "l h = (chunks, Inl e) \<Longrightarrow> model l h = (model_events chunks, Inl (HTTPException 500 e))"
  by (simp add: model_def model_events_def)

lemma model_Inr:
  "l h = (chunks, Inr tcs) \<Longrightarrow>
   model l h = (model_events chunks @ [OnChatModelEnd (AIMessage (concat chunks) tcs)],
                Inr [AIMessage (concat chunks) tcs])"
  by (simp add: model_def model_events_def Let_def)

lemma tools_router_AI:
  "tools_router (h @ [AIMessage c tcs]) = Inr (if tcs = [] then END else ToolNode)"
  by (simp add: tools_router_def)

lemma tool_node_AI:
  "tool_node s (h @ [AIMessage c tcs]) =
     (case invoke_calls s tcs of
        (evs, Inl e) \<Rightarrow> (evs, Inl (HTTPException 500 e))
      | (evs, Inr tms) \<Rightarrow> (evs, Inr tms))"
  by (simp add: tool_node_def)

declare run_graph.simps(2) [simp del]

lemma limit_induct [case_names zero one step]:
  assumes "P 0" "P (Suc 0)" "\<And>n. P n \<Longrightarrow> P (Suc (Suc n))"
  shows "P (n::nat)"
proof (induction n rule: less_induct)
  case (less n)
  show ?case
  proof (cases n)
    case 0
    with assms(1) show ?thesis by simp
  next
    case (Suc m)
    show ?thesis
    proof (cases m)
      case 0
      with Suc assms(2) show ?thesis by simp
    next
      case (Suc k)
      with \<open>n = Suc m\<close> less[of k] assms(3)[of k] show ?thesis by simp
    qed
  qed
qed

lemma run_graph_Suc_cases [consumes 0, case_names model_fails final tool_fails loops]:
  obtains
    (model_fails) chunks e where "l h = (chunks, Inl e)"
      "\<forall>n. run_graph (Suc n) l s h = (model_events chunks, Aborted (HTTPException 500 e) h)"
  | (final) chunks where "l h = (chunks, Inr [])"
      "\<forall>n. run_graph (Suc (Suc n)) l s h
         = (model_events chunks @ [OnChatModelEnd (AIMessage (concat chunks) [])],
            Done (h @ [AIMessage (concat chunks) []]))"
      "run_graph (Suc 0) l s h
         = (model_events chunks @ [OnChatModelEnd (AIMessage (concat chunks) [])],
            Aborted GraphRecursionError (h @ [AIMessage (concat chunks) []]))"
  | (tool_fails) chunks tcs ev2 e where "l h = (chunks, Inr tcs)" "tcs \<noteq> []"
      "invoke_calls s tcs = (ev2, Inl e)"
      "\<forall>n. run_graph (Suc (Suc n)) l s h
         = ((model_events chunks @ [OnChatModelEnd (AIMessage (concat chunks) tcs)]) @ ev2,
            Aborted (HTTPException 500 e) (h @ [AIMessage (concat chunks) tcs]))"
      "run_graph (Suc 0) l s h
         = (model_events chunks @ [OnChatModelEnd (AIMessage (concat chunks) tcs)],
            Aborted GraphRecursionError (h @ [AIMessage (concat chunks) tcs]))"
  | (loops) chunks tcs ev2 tms where "l h = (chunks, Inr tcs)" "tcs \<noteq> []"
      "invoke_calls s tcs = (ev2, Inr tms)"
      "\<forall>n. run_graph (Suc (Suc n)) l s h
         = ((model_events chunks @ [OnChatModelEnd (AIMessage (concat chunks) tcs)]) @ ev2
              @ fst (run_graph n l s (h @ AIMessage (concat chunks) tcs # tms)),
            snd (run_graph n l s (h @ AIMessage (concat chunks) tcs # tms)))"
      "run_graph (Suc 0) l s h
         = (model_events chunks @ [OnChatModelEnd (AIMessage (concat chunks) tcs)],
            Aborted GraphRecursionError (h @ [AIMessage (concat chunks) tcs]))"
proof -
  obtain chunks r where lh: "l h = (chunks, r)" by (metis prod.exhaust)
  show thesis
  proof (cases r)
    case (Inl e)
    with lh show thesis
      by (intro model_fails[of chunks e]) (simp_all add: model_Inl run_graph.simps(2))
  next
    case r: (Inr tcs)
    show thesis
    proof (cases "tcs = []")
      case True
      with lh r show thesis
        by (intro final[of chunks])
           (simp_all add: model_Inr add_messages_def tools_router_AI run_graph.simps(2))
    next
      case False
      obtain ev2 r2 where ic: "invoke_calls s tcs = (ev2, r2)" by (metis prod.exhaust)
      show thesis
      proof (cases r2)
        case (Inl e)
        with lh r False ic show thesis
          by (intro tool_fails[of chunks tcs ev2 e])
             (simp_all add: model_Inr add_messages_def tools_router_AI tool_node_AI
                run_graph.simps(2))
      next
        case (Inr tms)
        with lh r False ic show thesis
          by (intro loops[of chunks tcs ev2 tms])
             (simp_all add: model_Inr add_messages_def tools_router_AI tool_node_AI
                run_graph.simps(2) split: prod.splits)
      qed
    qed
  qed
qed

lemma contents_of_append: "contents_of (a @ b) = contents_of a @ contents_of b"
  by (induction a rule: contents_of.induct) simp_all

lemma starts_of_append: "starts_of (a @ b) = starts_of a @ starts_of b"
  by (induction a rule: starts_of.induct) simp_all

lemma results_of_append: "results_of (a @ b) = results_of a @ results_of b"
  by (induction a rule: results_of.induct) simp_all

lemma assistant_texts_append: "assistant_texts (a @ b) = assistant_texts a @ assistant_texts b"
  by (induction a rule: assistant_texts.induct) simp_all

lemma search_calls_of_append: "search_calls_of (a @ b) = search_calls_of a @ search_calls_of b"
  by (induction a) simp_all

lemma tool_results_of_append: "tool_results_of (a @ b) = tool_results_of a @ tool_results_of b"
  by (induction a rule: tool_results_of.induct) simp_all

lemma contents_of_Content: "contents_of (map Content cs) = cs"
  by (induction cs) simp_all

lemma starts_of_Content: "starts_of (map Content cs) = []"
  by (induction cs) simp_all

lemma results_of_Content: "results_of (map Content cs) = []"
  by (induction cs) simp_all

lemma contents_of_SearchStart: "contents_of (map (\<lambda>c. SearchStart (f c)) cs) = []"
  by (induction cs) simp_all

lemma starts_of_SearchStart: "starts_of (map (\<lambda>c. SearchStart (f c)) cs) = map f cs"
  by (induction cs) simp_all

lemma results_of_SearchStart: "results_of (map (\<lambda>c. SearchStart (f c)) cs) = []"
  by (induction cs) simp_all

lemma handled_model_end: "handled (OnChatModelEnd m)"
  by (simp add: handled_def)

lemma model_round_handled:
  "list_all handled (model_events chunks @ [OnChatModelEnd m])"
  by (simp add: model_events_handled handled_model_end)

lemma model_round_frames:
  "stream_events (model_events chunks @ [OnChatModelEnd (AIMessage c tcs)]) Pending
     = map Content chunks @ map (\<lambda>call. SearchStart (query_of call)) (search_calls tcs)"
  by (simp add: handled_append model_events_handled model_events_frames search_calls_def)

lemma run_graph_handled: "list_all handled (fst (run_graph n l s h))"
proof (induction n arbitrary: h rule: limit_induct)
  case zero
  then show ?case by simp
next
  case one
  show ?case
    by (cases rule: run_graph_Suc_cases[of l h s])
       (simp_all add: model_events_handled handled_model_end)
next
  case (step n)
  show ?case
  proof (cases rule: run_graph_Suc_cases[of l h s])
    case (model_fails chunks e)
    then show ?thesis by (simp add: model_events_handled)
  next
    case (final chunks)
    then show ?thesis by (simp add: model_events_handled handled_model_end)
  next
    case (tool_fails chunks tcs ev2 e)
    then show ?thesis
      using invoke_calls_handled[of s tcs] by (simp add: model_events_handled handled_model_end)
  next
    case (loops chunks tcs ev2 tms)
    then show ?thesis
      using invoke_calls_handled[of s tcs] step.IH[of "h @ AIMessage (concat chunks) tcs # tms"]
      by (simp add: model_events_handled handled_model_end)
  qed
qed

lemma run_graph_done:
  "run_graph n l s h = (evs, Done h') \<Longrightarrow>
   \<exists>new c. h' = h @ new \<and> new \<noteq> [] \<and> last new = AIMessage c []
     \<and> concat (contents_of (stream_events evs Pending)) = concat (assistant_texts new)
     \<and> starts_of (stream_events evs Pending) = map query_of (search_calls_of new)
     \<and> results_of (stream_events evs Pending)
          = map urls_of_output (filter is_list (map snd (tool_results_of new)))
     \<and> map fst (tool_results_of new) = map tc_id (search_calls_of new)"
proof (induction n arbitrary: h evs rule: limit_induct)
  case zero
  then show ?case by simp
next
  case one
  then show ?case
    by (cases rule: run_graph_Suc_cases[of l h s]) simp_all
next
  case (step n)
  show ?case
  proof (cases rule: run_graph_Suc_cases[of l h s])
    case (model_fails chunks e)
    with step.prems show ?thesis by simp
  next
    case (final chunks)
    with step.prems have e: "evs = model_events chunks @ [OnChatModelEnd (AIMessage (concat chunks) [])]"
      and h': "h' = h @ [AIMessage (concat chunks) []]" by simp_all
    show ?thesis
      unfolding e model_round_frames h'
      by (intro exI[of _ "[AIMessage (concat chunks) []]"] exI[of _ "concat chunks"])
         (simp add: contents_of_append contents_of_Content starts_of_append starts_of_Content
            results_of_append results_of_Content search_calls_def)
  next
    case (tool_fails chunks tcs ev2 e)
    with step.prems show ?thesis by simp
  next
    case (loops chunks tcs ev2 tms)
    let ?h2 = "h @ AIMessage (concat chunks) tcs # tms"
    let ?E1 = "model_events chunks @ [OnChatModelEnd (AIMessage (concat chunks) tcs)]"
    obtain ev3 where r: "run_graph n l s ?h2 = (ev3, Done h')" and e: "evs = ?E1 @ ev2 @ ev3"
      using loops(4) step.prems by (cases "run_graph n l s ?h2") auto
    from step.IH[OF r] obtain new c where n:
      "h' = ?h2 @ new" "new \<noteq> []" "last new = AIMessage c []"
      "concat (contents_of (stream_events ev3 Pending)) = concat (assistant_texts new)"
      "starts_of (stream_events ev3 Pending) = map query_of (search_calls_of new)"
      "results_of (stream_events ev3 Pending)
          = map urls_of_output (filter is_list (map snd (tool_results_of new)))"
      "map fst (tool_results_of new) = map tc_id (search_calls_of new)"
      by blast
    note ic = invoke_calls_ok[OF loops(3)]
    have h2: "list_all handled ev2" using invoke_calls_handled[of s tcs] loops(3) by simp
    have fr: "stream_events evs Pending
               = (map Content chunks @ map (\<lambda>call. SearchStart (query_of call)) (search_calls tcs))
                 @ stream_events ev2 Pending @ stream_events ev3 Pending"
      unfolding e
      by (simp only: handled_append[OF model_round_handled] handled_append[OF h2] model_round_frames)
    show ?thesis
      unfolding fr
      apply (intro exI[of _ "AIMessage (concat chunks) tcs # tms @ new"] exI[of _ c])
      using n ic
      by (simp add: contents_of_append contents_of_Content contents_of_SearchStart
            starts_of_append starts_of_Content starts_of_SearchStart
            results_of_append results_of_Content results_of_SearchStart
            assistant_texts_append search_calls_of_append tool_results_of_append)
  qed
qed

lemma unanswered_append:
  "unanswered k (a @ b) = (case unanswered k a of None \<Rightarrow> None | Some k' \<Rightarrow> unanswered k' b)"
  by (induction k a rule: unanswered.induct) simp_all

lemma unanswered_Content: "unanswered k (map Content cs) = Some k"
  by (induction cs) simp_all

lemma unanswered_SearchStart: "unanswered k (map (\<lambda>c. SearchStart (f c)) cs) = Some (k + length cs)"
  by (induction cs arbitrary: k) simp_all

lemma invoke_calls_unanswered:
  "invoke_calls s tcs = (evs, Inr tms) \<Longrightarrow> list_all is_list (map snd (tool_results_of tms)) \<Longrightarrow>
   unanswered (k + length (search_calls tcs)) (stream_events evs Pending) = Some k"
proof (induction tcs arbitrary: evs tms)
  case Nil
  then show ?case by (simp add: search_calls_def)
next
  case (Cons c cs)
  show ?case
  proof (cases "tc_name c = search_tool_name")
    case False
    with Cons show ?thesis by (simp add: search_calls_def)
  next
    case True
    from Cons.prems True obtain out evs' tms' where
      o: "s (tc_args c) = Inr out" "invoke_calls s cs = (evs', Inr tms')"
         "evs = OnToolStart (tc_name c) (tc_args c) # OnToolEnd (tc_name c) out # evs'"
         "tms = ToolMessage out (tc_id c) (tc_name c) # tms'"
      by (auto split: sum.splits prod.splits)
    from Cons.prems(2) o(4) have l: "is_list out" "list_all is_list (map snd (tool_results_of tms'))"
      by simp_all
    from Cons.IH[OF o(2) l(2)] show ?thesis using o True l(1)
      by (cases out) (auto simp: search_calls_def)
  qed
qed

lemma run_graph_unanswered:
  "run_graph n l s h = (evs, Done (h @ new)) \<Longrightarrow>
   list_all is_list (map snd (tool_results_of new)) \<Longrightarrow>
   unanswered k (stream_events evs Pending) = Some k"
proof (induction n arbitrary: h evs new rule: limit_induct)
  case zero
  then show ?case by simp
next
  case one
  then show ?case
    by (cases rule: run_graph_Suc_cases[of l h s]) simp_all
next
  case (step n)
  show ?case
  proof (cases rule: run_graph_Suc_cases[of l h s])
    case (model_fails chunks e)
    with step.prems show ?thesis by simp
  next
    case (final chunks)
    with step.prems have e: "evs = model_events chunks @ [OnChatModelEnd (AIMessage (concat chunks) [])]"
      by simp
    show ?thesis
      unfolding e model_round_frames
      by (simp add: unanswered_append unanswered_Content search_calls_def)
  next
    case (tool_fails chunks tcs ev2 e)
    with step.prems show ?thesis by simp
  next
    case (loops chunks tcs ev2 tms)
    let ?h2 = "h @ AIMessage (concat chunks) tcs # tms"
    let ?E1 = "model_events chunks @ [OnChatModelEnd (AIMessage (concat chunks) tcs)]"
    obtain ev3 where r: "run_graph n l s ?h2 = (ev3, Done (h @ new))" and e: "evs = ?E1 @ ev2 @ ev3"
      using loops(4) step.prems by (cases "run_graph n l s ?h2") auto
    from run_graph_done[OF r] obtain new' where n': "h @ new = ?h2 @ new'" by blast
    then have new: "new = AIMessage (concat chunks) tcs # tms @ new'" by simp
    from r n' have r': "run_graph n l s ?h2 = (ev3, Done (?h2 @ new'))" by simp
    from step.prems(2) new have l: "list_all is_list (map snd (tool_results_of tms))"
      "list_all is_list (map snd (tool_results_of new'))"
      by (simp_all add: tool_results_of_append)
    have h2: "list_all handled ev2" using invoke_calls_handled[of s tcs] loops(3) by simp
    have fr: "stream_events evs Pending
               = (map Content chunks @ map (\<lambda>call. SearchStart (query_of call)) (search_calls tcs))
                 @ stream_events ev2 Pending @ stream_events ev3 Pending"
      unfolding e
      by (simp only: handled_append[OF model_round_handled] handled_append[OF h2] model_round_frames)
    show ?thesis
      unfolding fr
      using step.IH[OF r' l(2)] invoke_calls_unanswered[OF loops(3) l(1), of k]
      by (simp add: unanswered_append unanswered_Content unanswered_SearchStart)
  qed
qed

lemma answered_in_order_append:
  "answered_in_order e (a @ b) = (answered_in_order e a \<and> answered_in_order (still_expected e a) b)"
  by (induction e a rule: answered_in_order.induct) (auto split: list.splits)

lemma answered_tool_messages:
  "length (tool_results_of tms) = length tms \<Longrightarrow> map fst (tool_results_of tms) = e \<Longrightarrow>
   answered_in_order e tms"
proof (induction tms arbitrary: e)
  case Nil
  then show ?case by simp
next
  case (Cons m tms)
  have le: "length (tool_results_of tms) \<le> length tms" for tms
    by (induction tms rule: tool_results_of.induct) auto
  show ?case
  proof (cases m)
    case (ToolMessage out i nm)
    with Cons show ?thesis by auto
  next
    case (HumanMessage c)
    with Cons.prems(1) le[of tms] show ?thesis by simp
  next
    case (AIMessage c tcs)
    with Cons.prems(1) le[of tms] show ?thesis by simp
  qed
qed

lemma run_graph_answered:
  "answered_in_order [] h \<Longrightarrow> answered_in_order [] (history (snd (run_graph n l s h)))"
proof (induction n arbitrary: h rule: limit_induct)
  case zero
  then show ?case by simp
next
  case one
  then show ?case
    by (cases rule: run_graph_Suc_cases[of l h s]) (simp_all add: answered_in_order_append)
next
  case (step n)
  show ?case
  proof (cases rule: run_graph_Suc_cases[of l h s])
    case (model_fails chunks e)
    with step.prems show ?thesis by simp
  next
    case (final chunks)
    with step.prems show ?thesis by (simp add: answered_in_order_append)
  next
    case (tool_fails chunks tcs ev2 e)
    with step.prems show ?thesis by (simp add: answered_in_order_append)
  next
    case (loops chunks tcs ev2 tms)
    note ic = invoke_calls_ok[OF loops(3)]
    have "answered_in_order (map tc_id (search_calls tcs)) tms"
      using ic by (intro answered_tool_messages) simp_all
    then have "answered_in_order [] (h @ AIMessage (concat chunks) tcs # tms)"
      using step.prems by (simp add: answered_in_order_append)
    from step.IH[OF this] loops(4) show ?thesis by simp
  qed
qed

lemma answered_refs_ok:
  "answered_in_order e h \<Longrightarrow> set e \<subseteq> set issued \<Longrightarrow> tool_refs_ok issued h"
proof (induction issued h arbitrary: e rule: tool_refs_ok.induct)
  case (1 issued)
  then show ?case by simp
next
  case (2 issued c ms)
  from 2(2) have "answered_in_order [] ms" by simp
  from 2(1)[OF this] show ?case by simp
next
  case (3 issued c tcs ms)
  from 3(2) have a: "answered_in_order (map tc_id (search_calls tcs)) ms" by simp
  have "set (map tc_id (search_calls tcs)) \<subseteq> set (issued @ map tc_id tcs)"
    by (auto simp: search_calls_def)
  from 3(1)[OF a this] show ?case by simp
next
  case (4 issued out i nm ms)
  then show ?case by (cases e) auto
qed



lemma model_events_no_end: "filter is_model_end (model_events chunks) = []"
  by (induction chunks) (simp_all add: model_events_def)

lemma model_round_responses:
  "length (filter is_model_end
     (model_events chunks @ [OnChatModelEnd m])) = 1"
  by (simp add: model_events_no_end)






lemma generate_compiled:
  "run_graph n l s (load_history st (thread_of new_id cp) @ [HumanMessage message]) = (evs, out) \<Longrightarrow>
   generate_chat_responses (compiled_graph n l s) st new_id message cp
     = ((case cp of None \<Rightarrow> [Checkpoint new_id] | Some cid \<Rightarrow> []) @ stream_events evs (end_of out),
        st(thread_of new_id cp \<mapsto> history out))"
  by (cases cp)
     (simp_all add: generate_chat_responses_def compiled_graph_def thread_of_def add_messages_def)

lemma compiled_graph_stops:
  "snd (source_of (compiled_graph n l s) st new_id message cp) \<noteq> Pending"
proof -
  have "end_of out \<noteq> Pending" for out by (cases out) simp_all
  then show ?thesis
    by (simp add: source_of_def compiled_graph_def split: prod.splits)
qed

lemma on_event_no_End: "on_event ev = Inr fs \<Longrightarrow> End \<notin> set fs"
  by (cases ev) (auto split: sum.splits tool_output.splits if_splits)

lemma End_in_stream: "End \<in> set (stream_events evs t) \<Longrightarrow> t = Exhausted"
proof (induction evs)
  case Nil
  then show ?case by (cases t) simp_all
next
  case (Cons ev evs)
  then show ?case by (auto split: sum.splits dest: on_event_no_End)
qed

lemma stream_events_exhausted:
  "list_all handled evs \<Longrightarrow> stream_events evs Exhausted = stream_events evs Pending @ [End]"
  using handled_append[of evs "[]" Exhausted] by simp

lemma successful_stream:
  assumes "End \<in> set (fst (generate_chat_responses (compiled_graph n l s) st new_id message cp))"
  obtains evs new c where
    "run_graph n l s (load_history st (thread_of new_id cp) @ [HumanMessage message])
       = (evs, Done ((load_history st (thread_of new_id cp) @ [HumanMessage message]) @ new))"
    "fst (generate_chat_responses (compiled_graph n l s) st new_id message cp)
       = (case cp of None \<Rightarrow> [Checkpoint new_id] | Some cid \<Rightarrow> []) @ stream_events evs Pending @ [End]"
    "turn_messages st (snd (generate_chat_responses (compiled_graph n l s) st new_id message cp))
       (thread_of new_id cp) = new"
    "load_history (snd (generate_chat_responses (compiled_graph n l s) st new_id message cp))
       (thread_of new_id cp) = load_history st (thread_of new_id cp) @ HumanMessage message # new"
    "new \<noteq> []" "last new = AIMessage c []"
proof -
  let ?h = "load_history st (thread_of new_id cp) @ [HumanMessage message]"
  obtain evs out where r: "run_graph n l s ?h = (evs, out)" by (metis prod.exhaust)
  note g = generate_compiled[OF r]
  from assms g have "End \<in> set (stream_events evs (end_of out))"
    by (cases cp) auto
  then have "end_of out = Exhausted" by (rule End_in_stream)
  then obtain h' where out: "out = Done h'" by (cases out) simp_all
  from run_graph_done[OF r[unfolded out]] obtain new c where
    n: "h' = ?h @ new" "new \<noteq> []" "last new = AIMessage c []" by blast
  have hd: "list_all handled evs" using run_graph_handled[of n l s ?h] r by simp
  show thesis
  proof (rule that[of evs new c])
    show "run_graph n l s ?h = (evs, Done (?h @ new))" using r out n by simp
    show "fst (generate_chat_responses (compiled_graph n l s) st new_id message cp)
       = (case cp of None \<Rightarrow> [Checkpoint new_id] | Some cid \<Rightarrow> []) @ stream_events evs Pending @ [End]"
      using g out stream_events_exhausted[OF hd] by simp
    show "load_history (snd (generate_chat_responses (compiled_graph n l s) st new_id message cp))
       (thread_of new_id cp) = load_history st (thread_of new_id cp) @ HumanMessage message # new"
      using g out n by (simp add: load_history_def)
    then show "turn_messages st (snd (generate_chat_responses (compiled_graph n l s) st new_id message cp))
       (thread_of new_id cp) = new"
      by (simp add: turn_messages_def)
    show "new \<noteq> []" "last new = AIMessage c []" using n by simp_all
  qed
qed

lemma assistant_texts_last:
  "new \<noteq> [] \<Longrightarrow> last new = AIMessage c tcs \<Longrightarrow>
   assistant_texts new = assistant_texts (butlast new) @ [c]"
proof -
  assume "new \<noteq> []" "last new = AIMessage c tcs"
  then have "new = butlast new @ [AIMessage c tcs]" by (metis append_butlast_last_id)
  then have "assistant_texts new = assistant_texts (butlast new @ [AIMessage c tcs])" by simp
  then show ?thesis by (simp add: assistant_texts_append)
qed

lemma prefix_reads:
  "contents_of ((case cp of None \<Rightarrow> [Checkpoint i] | Some cid \<Rightarrow> []) @ fs @ [End]) = contents_of fs"
  "starts_of ((case cp of None \<Rightarrow> [Checkpoint i] | Some cid \<Rightarrow> []) @ fs @ [End]) = starts_of fs"
  "results_of ((case cp of None \<Rightarrow> [Checkpoint i] | Some cid \<Rightarrow> []) @ fs @ [End]) = results_of fs"
  "unanswered k ((case cp of None \<Rightarrow> [Checkpoint i] | Some cid \<Rightarrow> []) @ fs @ [End]) = unanswered k fs"
  by (cases cp; simp add: contents_of_append starts_of_append results_of_append unanswered_append
        split: option.splits)+


section \<open>Content frames and the assistant's answer\<close>

text \<open>
  C3, as the claim states it, fails: the fragments of every response of the turn are
  streamed, also those of a response that goes on to ask for a search. Here the first
  response streams \<open>Let me check. \<close> and asks for a search, the second answers \<open>Paris\<close>;
  the stream ends with \<open>end\<close>, its \<open>content\<close> frames join to \<open>Let me check. Paris\<close>, and
  the final assistant message is \<open>Paris\<close>.
\<close>

theorem content_not_final_answer_counterexample:
  "End \<in> set (fst (generate_chat_responses
                     (compiled_graph recursion_limit llm_search_then_answer search_two_records)
                     Map.empty ''c-1'' ''hi'' None))
   \<and> concat (contents_of (fst (generate_chat_responses
                     (compiled_graph recursion_limit llm_search_then_answer search_two_records)
                     Map.empty ''c-1'' ''hi'' None))) = ''Let me check. Paris''
   \<and> final_answer (load_history (snd (generate_chat_responses
                     (compiled_graph recursion_limit llm_search_then_answer search_two_records)
                     Map.empty ''c-1'' ''hi'' None)) ''c-1'') = ''Paris''
   \<and> concat (contents_of (fst (generate_chat_responses
                     (compiled_graph recursion_limit llm_search_then_answer search_two_records)
                     Map.empty ''c-1'' ''hi'' None)))
     \<noteq> final_answer (load_history (snd (generate_chat_responses
                     (compiled_graph recursion_limit llm_search_then_answer search_two_records)
                     Map.empty ''c-1'' ''hi'' None)) ''c-1'')"
  by code_simp


text \<open>
  C3, amended. For every stream that ends with \<open>end\<close>, the \<open>content\<close> fields of its
  \<open>content\<close> frames, joined in the order of emission, are the texts of all assistant
  messages the turn has added to the history, joined in order. They are the text of the
  final assistant message whenever every assistant message of the turn before the final
  one has an empty text.
\<close>

theorem content_is_all_assistant_text:
  assumes "End \<in> set (fst (generate_chat_responses (compiled_graph n l s) st new_id message cp))"
  shows "concat (contents_of (fst (generate_chat_responses (compiled_graph n l s) st new_id message cp)))
           = concat (assistant_texts
               (turn_messages st
                  (snd (generate_chat_responses (compiled_graph n l s) st new_id message cp))
                  (thread_of new_id cp)))
       \<and> (list_all (\<lambda>text. text = [])
             (butlast (assistant_texts
                (turn_messages st
                   (snd (generate_chat_responses (compiled_graph n l s) st new_id message cp))
                   (thread_of new_id cp))))
           \<longrightarrow> concat (contents_of
                  (fst (generate_chat_responses (compiled_graph n l s) st new_id message cp)))
                = final_answer
                    (load_history
                       (snd (generate_chat_responses (compiled_graph n l s) st new_id message cp))
                       (thread_of new_id cp)))"
proof -
  from assms obtain evs new c where
    r: "run_graph n l s (load_history st (thread_of new_id cp) @ [HumanMessage message])
       = (evs, Done ((load_history st (thread_of new_id cp) @ [HumanMessage message]) @ new))"
    and f: "fst (generate_chat_responses (compiled_graph n l s) st new_id message cp)
       = (case cp of None \<Rightarrow> [Checkpoint new_id] | Some cid \<Rightarrow> []) @ stream_events evs Pending @ [End]"
    and t: "turn_messages st (snd (generate_chat_responses (compiled_graph n l s) st new_id message cp))
       (thread_of new_id cp) = new"
    and h: "load_history (snd (generate_chat_responses (compiled_graph n l s) st new_id message cp))
       (thread_of new_id cp) = load_history st (thread_of new_id cp) @ HumanMessage message # new"
    and n: "new \<noteq> []" "last new = AIMessage c []"
    by (rule successful_stream)
  from run_graph_done[OF r]
  have c: "concat (contents_of (stream_events evs Pending)) = concat (assistant_texts new)"
    by auto
  have fa: "final_answer (load_history st (thread_of new_id cp) @ HumanMessage message # new) = c"
    using n by (simp add: final_answer_def)
  have at: "assistant_texts new = assistant_texts (butlast new) @ [c]"
    using n by (rule assistant_texts_last)
  have "list_all (\<lambda>text. text = []) (butlast (assistant_texts new)) \<Longrightarrow> concat (assistant_texts new) = c"
  proof -
    assume "list_all (\<lambda>text. text = []) (butlast (assistant_texts new))"
    then have "list_all (\<lambda>text. text = []) (assistant_texts (butlast new))" using at by simp
    then have "concat (assistant_texts (butlast new)) = []"
      by (simp add: list_all_iff)
    with at show ?thesis by simp
  qed
  then show ?thesis
    unfolding f t h prefix_reads c fa by blast
qed


theorem content_is_all_assistant_text_witness:
  "End \<in> set (fst (generate_chat_responses
                     (compiled_graph recursion_limit llm_search_then_answer search_two_records)
                     (Map.empty(''c-0'' \<mapsto> [HumanMessage ''hello'', AIMessage ''Hi.'' []]))
                     ''c-1'' ''hi'' (Some ''c-0'')))
   \<and> concat (contents_of (fst (generate_chat_responses
                     (compiled_graph recursion_limit llm_search_then_answer search_two_records)
                     (Map.empty(''c-0'' \<mapsto> [HumanMessage ''hello'', AIMessage ''Hi.'' []]))
                     ''c-1'' ''hi'' (Some ''c-0''))))
     = final_answer (load_history (snd (generate_chat_responses
                     (compiled_graph recursion_limit llm_search_then_answer search_two_records)
                     (Map.empty(''c-0'' \<mapsto> [HumanMessage ''hello'', AIMessage ''Hi.'' []]))
                     ''c-1'' ''hi'' (Some ''c-0''))) ''c-0'')"
proof -
  have e: "End \<in> set (fst (generate_chat_responses
                     (compiled_graph recursion_limit llm_search_then_answer search_two_records)
                     (Map.empty(''c-0'' \<mapsto> [HumanMessage ''hello'', AIMessage ''Hi.'' []]))
                     ''c-1'' ''hi'' (Some ''c-0'')))"
    by code_simp
  have b: "list_all (\<lambda>text. text = [])
             (butlast (assistant_texts
                (turn_messages (Map.empty(''c-0'' \<mapsto> [HumanMessage ''hello'', AIMessage ''Hi.'' []]))
                   (snd (generate_chat_responses
                     (compiled_graph recursion_limit llm_search_then_answer search_two_records)
                     (Map.empty(''c-0'' \<mapsto> [HumanMessage ''hello'', AIMessage ''Hi.'' []]))
                     ''c-1'' ''hi'' (Some ''c-0'')))
                   (thread_of ''c-1'' (Some ''c-0'')))))"
    by code_simp
  have t: "thread_of ''c-1'' (Some ''c-0'') = ''c-0''" by (simp add: thread_of_def)
  from content_is_all_assistant_text[OF e] b show ?thesis
    using e unfolding t by blast
qed


section \<open>Search frames\<close>

text \<open>
  C4, as the claim states it, fails: a \<open>search_results\<close> frame is sent only for an output
  that is a list. Here the search tool returns a text; the stream ends with \<open>end\<close> and
  holds a \<open>search_start\<close> frame and no \<open>search_results\<close> frame.
\<close>

theorem search_start_unanswered_counterexample:
  "fst (generate_chat_responses
          (compiled_graph recursion_limit llm_search_then_answer search_error_text)
          Map.empty ''c-1'' ''hi'' None)
     = [Checkpoint ''c-1'', Content ''Let me '', Content ''check. '',
        SearchStart (PStr ''capital of France''), Content ''Par'', Content ''is'', End]
   \<and> unanswered 0 (fst (generate_chat_responses
          (compiled_graph recursion_limit llm_search_then_answer search_error_text)
          Map.empty ''c-1'' ''hi'' None)) = Some 1"
  by code_simp


text \<open>
  C4, amended. For every stream that ends with \<open>end\<close> and every turn all of whose tool
  results are lists: every \<open>search_start\<close> frame is paired with a \<open>search_results\<close> frame
  later in the stream and none is left over; the queries of the \<open>search_start\<close> frames
  are those of the search calls of the turn in the order of issue; the lists of the
  \<open>search_results\<close> frames are the URLs of the tool results of the turn in order; and
  these tool results answer those calls, identifier by identifier, in the same order.
\<close>

theorem search_starts_answered_in_order:
  assumes "End \<in> set (fst (generate_chat_responses (compiled_graph n l s) st new_id message cp))"
    and "list_all is_list
           (map snd (tool_results_of
              (turn_messages st
                 (snd (generate_chat_responses (compiled_graph n l s) st new_id message cp))
                 (thread_of new_id cp))))"
  shows "unanswered 0 (fst (generate_chat_responses (compiled_graph n l s) st new_id message cp))
           = Some 0
       \<and> starts_of (fst (generate_chat_responses (compiled_graph n l s) st new_id message cp))
           = map query_of (search_calls_of
               (turn_messages st
                  (snd (generate_chat_responses (compiled_graph n l s) st new_id message cp))
                  (thread_of new_id cp)))
       \<and> results_of (fst (generate_chat_responses (compiled_graph n l s) st new_id message cp))
           = map (\<lambda>r. urls_of_output (snd r)) (tool_results_of
               (turn_messages st
                  (snd (generate_chat_responses (compiled_graph n l s) st new_id message cp))
                  (thread_of new_id cp)))
       \<and> map fst (tool_results_of
               (turn_messages st
                  (snd (generate_chat_responses (compiled_graph n l s) st new_id message cp))
                  (thread_of new_id cp)))
           = map tc_id (search_calls_of
               (turn_messages st
                  (snd (generate_chat_responses (compiled_graph n l s) st new_id message cp))
                  (thread_of new_id cp)))"
proof -
  from assms(1) obtain evs new c where
    r: "run_graph n l s (load_history st (thread_of new_id cp) @ [HumanMessage message])
       = (evs, Done ((load_history st (thread_of new_id cp) @ [HumanMessage message]) @ new))"
    and f: "fst (generate_chat_responses (compiled_graph n l s) st new_id message cp)
       = (case cp of None \<Rightarrow> [Checkpoint new_id] | Some cid \<Rightarrow> []) @ stream_events evs Pending @ [End]"
    and t: "turn_messages st (snd (generate_chat_responses (compiled_graph n l s) st new_id message cp))
       (thread_of new_id cp) = new"
    by (rule successful_stream)
  from assms(2) t have al: "list_all is_list (map snd (tool_results_of new))" by simp
  then have fl: "filter is_list (map snd (tool_results_of new)) = map snd (tool_results_of new)"
    by (simp add: list_all_iff)
  from run_graph_done[OF r] fl
  have d: "starts_of (stream_events evs Pending) = map query_of (search_calls_of new)"
    "results_of (stream_events evs Pending) = map (\<lambda>r. urls_of_output (snd r)) (tool_results_of new)"
    "map fst (tool_results_of new) = map tc_id (search_calls_of new)"
    by auto
  from run_graph_unanswered[OF r al, of 0]
  have u: "unanswered 0 (stream_events evs Pending) = Some 0" .
  show ?thesis
    unfolding f t prefix_reads using d u by simp
qed

theorem search_starts_answered_in_order_witness:
  "starts_of (fst (generate_chat_responses
          (compiled_graph recursion_limit llm_search_then_answer search_two_records)
          Map.empty ''c-1'' ''hi'' None)) = [PStr ''capital of France'']
   \<and> results_of (fst (generate_chat_responses
          (compiled_graph recursion_limit llm_search_then_answer search_two_records)
          Map.empty ''c-1'' ''hi'' None)) = [[PStr ''http://a'', PStr ''http://b'']]
   \<and> unanswered 0 (fst (generate_chat_responses
          (compiled_graph recursion_limit llm_search_then_answer search_two_records)
          Map.empty ''c-1'' ''hi'' None)) = Some 0"
proof -
  have e: "End \<in> set (fst (generate_chat_responses
          (compiled_graph recursion_limit llm_search_then_answer search_two_records)
          Map.empty ''c-1'' ''hi'' None))"
    by code_simp
  have a: "list_all is_list
           (map snd (tool_results_of
              (turn_messages Map.empty
                 (snd (generate_chat_responses
                    (compiled_graph recursion_limit llm_search_then_answer search_two_records)
                    Map.empty ''c-1'' ''hi'' None))
                 (thread_of ''c-1'' None))))"
    by code_simp
  have q: "map query_of (search_calls_of
              (turn_messages Map.empty
                 (snd (generate_chat_responses
                    (compiled_graph recursion_limit llm_search_then_answer search_two_records)
                    Map.empty ''c-1'' ''hi'' None))
                 (thread_of ''c-1'' None))) = [PStr ''capital of France'']"
    by code_simp
  have u: "map (\<lambda>r. urls_of_output (snd r)) (tool_results_of
              (turn_messages Map.empty
                 (snd (generate_chat_responses
                    (compiled_graph recursion_limit llm_search_then_answer search_two_records)
                    Map.empty ''c-1'' ''hi'' None))
                 (thread_of ''c-1'' None))) = [[PStr ''http://a'', PStr ''http://b'']]"
    by code_simp
  from search_starts_answered_in_order[OF e a] show ?thesis
    unfolding q u by blast
qed

lemma urls_of_url_of: "urls_of items = map the (filter (\<lambda>u. u \<noteq> None) (map url_of items))"
  by (induction items rule: urls_of.induct) (auto split: option.splits)

text \<open>
  C5. The \<open>search_results\<close> frame sent for a search output that is a list carries the
  values of the field \<open>url\<close> of the items that are records with such a field, in the
  order of the output, and nothing else: two outputs whose items agree on that field
  give the same frame, whatever their other fields (titles, snippets) are.
\<close>

theorem search_results_only_urls:
  assumes "map url_of items = map url_of items'"
  shows "on_event (OnToolEnd search_tool_name (OutList items))
           = Inr [SearchResults (map the (filter (\<lambda>u. u \<noteq> None) (map url_of items)))]
       \<and> on_event (OnToolEnd search_tool_name (OutList items))
           = on_event (OnToolEnd search_tool_name (OutList items'))"
  using assms by (simp add: urls_of_url_of)

theorem search_results_only_urls_witness:
  "on_event (OnToolEnd search_tool_name
       (OutList [ItemDict [(''title'', PStr ''France''), (''url'', PStr ''http://a''),
                            (''content'', PStr ''c'')],
                 ItemDict [(''url'', PStr ''http://b'')]]))
     = Inr [SearchResults [PStr ''http://a'', PStr ''http://b'']]
   \<and> on_event (OnToolEnd search_tool_name
       (OutList [ItemDict [(''title'', PStr ''France''), (''url'', PStr ''http://a''),
                            (''content'', PStr ''c'')],
                 ItemDict [(''url'', PStr ''http://b'')]]))
     = on_event (OnToolEnd search_tool_name
       (OutList [ItemDict [(''url'', PStr ''http://a'')],
                 ItemDict [(''url'', PStr ''http://b''), (''score'', PNum 1)]]))"
proof -
  have h: "map url_of [ItemDict [(''title'', PStr ''France''), (''url'', PStr ''http://a''),
                            (''content'', PStr ''c'')],
                 ItemDict [(''url'', PStr ''http://b'')]]
         = map url_of [ItemDict [(''url'', PStr ''http://a'')],
                 ItemDict [(''url'', PStr ''http://b''), (''score'', PNum 1)]]"
    by simp
  from search_results_only_urls[OF h] show ?thesis by simp
qed

section \<open>The tool node\<close>

lemma search_calls_skip:
  "tc_name call \<noteq> search_tool_name \<Longrightarrow> search_calls (pre @ call # post) = search_calls (pre @ post)"
  by (simp add: search_calls_def)

text \<open>
  C6. A call whose name is not that of the search tool is skipped by \<open>tool_node\<close>: with
  the call or without it, the node reports the same tool invocations, returns the same
  tool results and raises the same exceptions or none. A response whose only call is
  such a call invokes nothing, adds no message and raises nothing. No \<open>search_start\<close>
  frame is sent for the call either.
\<close>

theorem unknown_tool_call_skipped:
  assumes "tc_name call \<noteq> search_tool_name"
  shows "tool_node s (h @ [AIMessage c (pre @ call # post)])
           = tool_node s (h @ [AIMessage c (pre @ post)])
       \<and> tool_node s (h @ [AIMessage c [call]]) = ([], Inr [])
       \<and> on_event (OnChatModelEnd (AIMessage c (pre @ call # post)))
           = on_event (OnChatModelEnd (AIMessage c (pre @ post)))"
proof -
  have "invoke_calls s (pre @ call # post) = invoke_calls s (pre @ post)"
    using invoke_calls_search_calls[of s "pre @ call # post"]
          invoke_calls_search_calls[of s "pre @ post"] search_calls_skip[OF assms, of pre post]
    by simp
  moreover have "invoke_calls s [call] = ([], Inr [])" using assms by simp
  ultimately show ?thesis using assms by (simp add: tool_node_AI)
qed

theorem unknown_tool_call_skipped_witness:
  "tool_node search_two_records
     [HumanMessage ''hi'',
      AIMessage ''''
        [ToolCall ''tavily_search_results_json'' [(''query'', PStr ''q1'')] ''id1'',
         ToolCall ''calculator'' [(''expr'', PStr ''1+1'')] ''id2'',
         ToolCall ''tavily_search_results_json'' [(''query'', PStr ''q3'')] ''id3'']]
   = tool_node search_two_records
     [HumanMessage ''hi'',
      AIMessage ''''
        [ToolCall ''tavily_search_results_json'' [(''query'', PStr ''q1'')] ''id1'',
         ToolCall ''tavily_search_results_json'' [(''query'', PStr ''q3'')] ''id3'']]
   \<and> tool_node search_two_records
     [HumanMessage ''hi'', AIMessage '''' [ToolCall ''calculator'' [(''expr'', PStr ''1+1'')] ''id2'']]
     = ([], Inr [])"
proof -
  have h: "tc_name (ToolCall ''calculator'' [(''expr'', PStr ''1+1'')] ''id2'') \<noteq> search_tool_name"
    by (simp add: search_tool_name_def)
  from unknown_tool_call_skipped[OF h, of search_two_records "[HumanMessage ''hi'']" "''''"
      "[ToolCall ''tavily_search_results_json'' [(''query'', PStr ''q1'')] ''id1'']"
      "[ToolCall ''tavily_search_results_json'' [(''query'', PStr ''q3'')] ''id3'']"]
  show ?thesis by simp
qed

text \<open>
  C7. If in every stored history the tool results that follow an assistant message
  answer its search calls in the order of issue, then the same holds after one more
  invocation of the endpoint, however it ends, and every tool result of every stored
  history references a call issued by an assistant message before it in that history.
  Within one response, the tool results that \<open>tool_node\<close> returns carry the identifiers
  of the search calls of the response, in the order of the calls.
\<close>

theorem tool_results_answer_issued_calls:
  assumes "\<forall>tid. answered_in_order [] (load_history st tid)"
  shows "(\<forall>tid. answered_in_order []
                  (load_history
                     (snd (generate_chat_responses (compiled_graph n l s) st new_id message cp)) tid)
              \<and> tool_refs_ok []
                  (load_history
                     (snd (generate_chat_responses (compiled_graph n l s) st new_id message cp)) tid))
       \<and> (\<forall>h c tcs evs tms. tool_node s (h @ [AIMessage c tcs]) = (evs, Inr tms)
             \<longrightarrow> map fst (tool_results_of tms) = map tc_id (search_calls tcs)
                 \<and> length (tool_results_of tms) = length tms)"
proof -
  let ?t = "thread_of new_id cp"
  let ?h = "load_history st ?t @ [HumanMessage message]"
  obtain evs out where r: "run_graph n l s ?h = (evs, out)" by (metis prod.exhaust)
  note g = generate_compiled[OF r]
  have "answered_in_order [] ?h" using assms by (simp add: answered_in_order_append)
  from run_graph_answered[OF this, of n l s] r have a: "answered_in_order [] (history out)" by simp
  have inv: "answered_in_order []
               (load_history (snd (generate_chat_responses (compiled_graph n l s) st new_id message cp)) tid)"
    for tid
    using g a assms by (simp add: load_history_def)
  have refs: "tool_refs_ok []
               (load_history (snd (generate_chat_responses (compiled_graph n l s) st new_id message cp)) tid)"
    for tid
    using answered_refs_ok[OF inv[of tid], of "[]"] by simp
  have ord: "map fst (tool_results_of tms) = map tc_id (search_calls tcs)
                 \<and> length (tool_results_of tms) = length tms"
    if "tool_node s (h @ [AIMessage c tcs]) = (evs, Inr tms)" for h c tcs evs tms
  proof -
    from that have "invoke_calls s tcs = (evs, Inr tms)"
      by (auto simp: tool_node_AI split: prod.splits sum.splits)
    from invoke_calls_ok[OF this] show ?thesis by simp
  qed
  from inv refs ord show ?thesis by blast
qed

theorem tool_results_answer_issued_calls_witness:
  "answered_in_order []
     (load_history (snd (generate_chat_responses
                           (compiled_graph recursion_limit llm_search_then_answer search_two_records)
                           Map.empty ''c-1'' ''hi'' None)) ''c-1'')
   \<and> tool_refs_ok []
     (load_history (snd (generate_chat_responses
                           (compiled_graph recursion_limit llm_search_then_answer search_two_records)
                           Map.empty ''c-1'' ''hi'' None)) ''c-1'')
   \<and> map fst (tool_results_of
        (load_history (snd (generate_chat_responses
                           (compiled_graph recursion_limit llm_search_then_answer search_two_records)
                           Map.empty ''c-1'' ''hi'' None)) ''c-1'')) = [''call_1'']
   \<and> map fst (tool_results_of
        (case snd (tool_node search_two_records
           [HumanMessage ''hi'',
            AIMessage ''''
              [ToolCall ''tavily_search_results_json'' [(''query'', PStr ''q1'')] ''id1'',
               ToolCall ''calculator'' [(''expr'', PStr ''1+1'')] ''id2'',
               ToolCall ''tavily_search_results_json'' [(''query'', PStr ''q3'')] ''id3'']])
         of Inl e \<Rightarrow> [] | Inr tms \<Rightarrow> tms)) = [''id1'', ''id3'']"
proof -
  let ?tcs = "[ToolCall ''tavily_search_results_json'' [(''query'', PStr ''q1'')] ''id1'',
               ToolCall ''calculator'' [(''expr'', PStr ''1+1'')] ''id2'',
               ToolCall ''tavily_search_results_json'' [(''query'', PStr ''q3'')] ''id3'']"
  let ?out = "OutList
            [ItemDict [(''title'', PStr ''France''), (''url'', PStr ''http://a''),
                       (''content'', PStr ''c'')],
             ItemDict [(''url'', PStr ''http://b'')]]"
  let ?tms = "[ToolMessage ?out ''id1'' ''tavily_search_results_json'',
               ToolMessage ?out ''id3'' ''tavily_search_results_json'']"
  let ?evs = "[OnToolStart ''tavily_search_results_json'' [(''query'', PStr ''q1'')],
               OnToolEnd ''tavily_search_results_json'' ?out,
               OnToolStart ''tavily_search_results_json'' [(''query'', PStr ''q3'')],
               OnToolEnd ''tavily_search_results_json'' ?out]"
  have h: "\<forall>tid. answered_in_order [] (load_history Map.empty tid)"
    by (simp add: load_history_def)
  have t: "map fst (tool_results_of
        (load_history (snd (generate_chat_responses
                           (compiled_graph recursion_limit llm_search_then_answer search_two_records)
                           Map.empty ''c-1'' ''hi'' None)) ''c-1'')) = [''call_1'']"
    by code_simp
  have n: "tool_node search_two_records ([HumanMessage ''hi''] @ [AIMessage '''' ?tcs])
             = (?evs, Inr ?tms)"
    by (simp add: tool_node_def search_tool_name_def search_two_records_def)
  have sc: "map tc_id (search_calls ?tcs) = [''id1'', ''id3'']"
    by (simp add: search_calls_def search_tool_name_def)
  note inst = tool_results_answer_issued_calls[OF h, of recursion_limit llm_search_then_answer search_two_records
      "''c-1''" "''hi''" None]
  from inst have inv: "answered_in_order []
     (load_history (snd (generate_chat_responses
                           (compiled_graph recursion_limit llm_search_then_answer search_two_records)
                           Map.empty ''c-1'' ''hi'' None)) ''c-1'')
   \<and> tool_refs_ok []
     (load_history (snd (generate_chat_responses
                           (compiled_graph recursion_limit llm_search_then_answer search_two_records)
                           Map.empty ''c-1'' ''hi'' None)) ''c-1'')"
    by blast
  from inst n have "map fst (tool_results_of ?tms) = map tc_id (search_calls ?tcs)"
    by blast
  with sc n have ord: "map fst (tool_results_of
        (case snd (tool_node search_two_records
           [HumanMessage ''hi'', AIMessage '''' ?tcs])
         of Inl e \<Rightarrow> [] | Inr tms \<Rightarrow> tms)) = [''id1'', ''id3'']"
    by simp
  from inv t ord show ?thesis by blast
qed

section \<open>The loop between model and tools\<close>




section \<open>Unknown conversation identifiers\<close>

text \<open>
  C9. For a supplied identifier that the store does not hold, the events iterated over
  are those of a run of the graph on the caller's message alone; the frames are those of
  that run, with no frame added for the unknown identifier; the store afterwards holds
  the history of that run under the identifier. The invocation is the same as with an
  empty history stored under the identifier, and its frames are those of a new
  conversation that was given this identifier, without the \<open>checkpoint\<close> frame.
\<close>

theorem unknown_id_starts_fresh:
  assumes "st cid = None"
  shows "source_of (compiled_graph n l s) st new_id message (Some cid)
           = (fst (run_graph n l s [HumanMessage message]),
              end_of (snd (run_graph n l s [HumanMessage message])))
       \<and> generate_chat_responses (compiled_graph n l s) st new_id message (Some cid)
           = (stream_events (fst (run_graph n l s [HumanMessage message]))
                (end_of (snd (run_graph n l s [HumanMessage message]))),
              st(cid \<mapsto> history (snd (run_graph n l s [HumanMessage message]))))
       \<and> generate_chat_responses (compiled_graph n l s) st new_id message (Some cid)
           = generate_chat_responses (compiled_graph n l s) (st(cid \<mapsto> [])) new_id message (Some cid)
       \<and> fst (generate_chat_responses (compiled_graph n l s) st new_id message (Some cid))
           = tl (fst (generate_chat_responses (compiled_graph n l s) st cid message None))"
  using assms
  by (simp add: source_of_def generate_chat_responses_def compiled_graph_def load_history_def
        add_messages_def split: prod.splits)

theorem unknown_id_starts_fresh_witness:
  "generate_chat_responses (compiled_graph recursion_limit llm_search_then_answer search_two_records)
      Map.empty ''c-1'' ''hi'' (Some ''never-issued'')
     = (stream_events
          (fst (run_graph recursion_limit llm_search_then_answer search_two_records [HumanMessage ''hi'']))
          (end_of (snd (run_graph recursion_limit llm_search_then_answer search_two_records [HumanMessage ''hi'']))),
        Map.empty(''never-issued'' \<mapsto>
          history (snd (run_graph recursion_limit llm_search_then_answer search_two_records [HumanMessage ''hi'']))))
   \<and> filter is_terminal
       (fst (generate_chat_responses (compiled_graph recursion_limit llm_search_then_answer search_two_records)
               Map.empty ''c-1'' ''hi'' (Some ''never-issued''))) = [End]"
proof -
  have h: "(Map.empty :: store) ''never-issued'' = None" by simp
  have e: "filter is_terminal
       (fst (generate_chat_responses (compiled_graph recursion_limit llm_search_then_answer search_two_records)
               Map.empty ''c-1'' ''hi'' (Some ''never-issued''))) = [End]"
    by code_simp
  from unknown_id_starts_fresh[OF h, of recursion_limit llm_search_then_answer search_two_records "''c-1''" "''hi''"] e
  show ?thesis by blast
qed

section \<open>The frontend's session file\<close>

lemma sorted_reverse_set: "set (sorted_reverse f xs) = set xs"
  by (simp add: sorted_reverse_def)

lemma sorted_reverse_length: "length (sorted_reverse f xs) = length xs"
  by (simp add: sorted_reverse_def)

lemma sorted_reverse_descending: "sorted_wrt (\<lambda>a b. f b \<le> f a) (sorted_reverse f xs)"
proof -
  have "sorted (map f (sort_key f (rev xs)))" by simp
  then have "sorted_wrt (\<lambda>a b. f a \<le> f b) (sort_key f (rev xs))"
    by (simp add: sorted_wrt_map)
  then show ?thesis
    by (simp add: sorted_reverse_def sorted_wrt_rev)
qed

lemma sorted_reverse_distinct:
  "distinct (map g xs) \<Longrightarrow> distinct (map g (sorted_reverse f xs))"
  by (simp add: distinct_map sorted_reverse_def)

lemma take_above_drop:
  assumes "sorted_wrt (\<lambda>a b. f b \<le> f a) ys" "x \<in> set (take m ys)" "y \<in> set ys" "y \<notin> set (take m ys)"
  shows "f y \<le> f x"
proof -
  have "set ys = set (take m ys) \<union> set (drop m ys)"
    by (metis append_take_drop_id set_append)
  with assms(3,4) have y: "y \<in> set (drop m ys)" by blast
  have "sorted_wrt (\<lambda>a b. f b \<le> f a) (take m ys @ drop m ys)" using assms(1) by simp
  then have "\<forall>a\<in>set (take m ys). \<forall>b\<in>set (drop m ys). f b \<le> f a"
    unfolding sorted_wrt_append by blast
  then show ?thesis using assms(2) y by blast
qed


text \<open>
  C10. A mapping with at most \<open>max_sessions\<close> entries is stored as it is. For a mapping
  with more entries (its keys distinct, as those of a dict are, each of them a number for
  \<open>float\<close>, and \<open>max_sessions\<close> not negative), what is stored has exactly \<open>max_sessions\<close>
  entries, each of them an entry of the input with its value unchanged, under distinct
  keys, and every entry kept has a key at least as large, as a number, as the key of
  every entry dropped.
\<close>

theorem save_keeps_newest:
  "(int (length sessions) \<le> max_sessions \<longrightarrow>
      save_chat_sessions float sessions max_sessions = Inr sessions)
   \<and> (max_sessions < int (length sessions) \<and> 0 \<le> max_sessions
        \<and> distinct (map fst sessions) \<and> (\<forall>x\<in>set sessions. float (fst x) \<noteq> None) \<longrightarrow>
      (\<exists>kept. save_chat_sessions float sessions max_sessions = Inr kept
         \<and> int (length kept) = max_sessions
         \<and> distinct (map fst kept)
         \<and> set kept \<subseteq> set sessions
         \<and> (\<forall>x\<in>set kept. \<forall>y\<in>set sessions - set kept.
               the (float (fst y)) \<le> the (float (fst x)))))"
proof (intro conjI impI)
  assume "int (length sessions) \<le> max_sessions"
  then show "save_chat_sessions float sessions max_sessions = Inr sessions"
    by (simp add: save_chat_sessions_def)
next
  assume a: "max_sessions < int (length sessions) \<and> 0 \<le> max_sessions
        \<and> distinct (map fst sessions) \<and> (\<forall>x\<in>set sessions. float (fst x) \<noteq> None)"
  let ?f = "\<lambda>x. the (float (fst x))"
  let ?ys = "sorted_reverse ?f sessions"
  let ?kept = "take (nat max_sessions) ?ys"
  from a have nex: "\<not> list_ex (\<lambda>x. float (fst x) = None) sessions"
    by (simp add: list_ex_iff)
  have s: "save_chat_sessions float sessions max_sessions = Inr ?kept"
    using a nex by (simp add: save_chat_sessions_def slice_to_def)
  have len: "int (length ?kept) = max_sessions"
    using a by (auto simp: sorted_reverse_length min_def)
  have dist: "distinct (map fst ?kept)"
    using sorted_reverse_distinct[of fst sessions ?f] a
    by (simp add: take_map[symmetric] del: take_map)
  have sub: "set ?kept \<subseteq> set sessions"
    using set_take_subset[of "nat max_sessions" ?ys] by (simp add: sorted_reverse_set)
  have ord: "\<forall>x\<in>set ?kept. \<forall>y\<in>set sessions - set ?kept. ?f y \<le> ?f x"
  proof (intro ballI)
    fix x y assume x: "x \<in> set ?kept" and y: "y \<in> set sessions - set ?kept"
    then have "y \<in> set ?ys" "y \<notin> set ?kept" by (simp_all add: sorted_reverse_set)
    from take_above_drop[OF sorted_reverse_descending x this] show "?f y \<le> ?f x" .
  qed
  from s len dist sub ord
  show "\<exists>kept. save_chat_sessions float sessions max_sessions = Inr kept
         \<and> int (length kept) = max_sessions
         \<and> distinct (map fst kept)
         \<and> set kept \<subseteq> set sessions
         \<and> (\<forall>x\<in>set kept. \<forall>y\<in>set sessions - set kept.
               the (float (fst y)) \<le> the (float (fst x)))"
    by blast
qed


theorem save_keeps_newest_witness:
  "save_chat_sessions float_of_key
     [(''1730000001.5'', ''first''), (''1730000003.25'', ''third''),
      (''1730000002.0'', ''second'')] 2
     = Inr [(''1730000003.25'', ''third''), (''1730000002.0'', ''second'')]
   \<and> (\<exists>kept. save_chat_sessions float_of_key
                [(''1730000001.5'', ''first''), (''1730000003.25'', ''third''),
                 (''1730000002.0'', ''second'')] 2 = Inr kept
          \<and> int (length kept) = 2
          \<and> set kept \<subseteq> set [(''1730000001.5'', ''first''), (''1730000003.25'', ''third''),
                                (''1730000002.0'', ''second'')])
   \<and> save_chat_sessions float_of_key
        [(''1730000001.5'', ''first''), (''1730000003.25'', ''third'')] 2
     = Inr [(''1730000001.5'', ''first''), (''1730000003.25'', ''third'')]"
proof -
  let ?S = "[(''1730000001.5'', ''first''), (''1730000003.25'', ''third''),
             (''1730000002.0'', ''second'')]"
  have v: "save_chat_sessions float_of_key ?S 2
             = Inr [(''1730000003.25'', ''third''), (''1730000002.0'', ''second'')]"
    by (simp add: save_chat_sessions_def float_of_key_def slice_to_def sorted_reverse_def)
  have h: "2 < int (length ?S) \<and> 0 \<le> (2::int) \<and> distinct (map fst ?S)
             \<and> (\<forall>x\<in>set ?S. float_of_key (fst x) \<noteq> None)"
    by (simp add: float_of_key_def del: not_None_eq)
  have small: "int (length [(''1730000001.5'', ''first''), (''1730000003.25'', ''third'')]) \<le> 2"
    by simp
  from save_keeps_newest[of ?S 2 float_of_key] h
  have 1: "\<exists>kept. save_chat_sessions float_of_key ?S 2 = Inr kept
          \<and> int (length kept) = 2 \<and> set kept \<subseteq> set ?S"
    by blast
  from save_keeps_newest[of "[(''1730000001.5'', ''first''), (''1730000003.25'', ''third'')]" 2
      float_of_key] small
  have 2: "save_chat_sessions float_of_key
        [(''1730000001.5'', ''first''), (''1730000003.25'', ''third'')] 2
     = Inr [(''1730000001.5'', ''first''), (''1730000003.25'', ''third'')]"
    by blast
  from v 1 2 show ?thesis by blast
qed

end
